theory Spec2Isabelle
  imports Main "HOL-Library.Sublist" "HOL-Library.Monad_Syntax" "HOL-Library.AList"
begin

section \<open>Text primitives of the Python runtime\<close>

text \<open>
  A Python \<open>str\<close> is modelled as a \<open>string\<close>: a list of characters with code points
  0 to 255. On that range the classes used by \<open>app.py\<close> are the ones written out below:
  \<open>str.strip()\<close> and the regex class \<open>\s\<close> share one whitespace set, \<open>\d\<close> is the ASCII
  digits, and \<open>str.splitlines()\<close> breaks at its own, smaller set of line boundaries.
  An operation that raises in Python returns \<open>None\<close> in the model.

  Three limits of the runtime are part of the model. \<open>int\<close> on a string of more than
  4300 digits and \<open>str\<close> of an integer of more than 4300 digits raise \<open>ValueError\<close>.
  \<open>list(range(a, b))\<close> raises \<open>OverflowError\<close> when it would hold more than
  \<open>sys.maxsize\<close> values and \<open>MemoryError\<close> when it would hold more than the runtime can
  allocate; that capacity is the parameter \<open>cap\<close> of the functions that build such a list.
\<close>

abbreviation LF :: char where "LF \<equiv> CHR 0x0A"
abbreviation CR :: char where "CR \<equiv> CHR 0x0D"

definition is_space :: "char \<Rightarrow> bool" where
  "is_space c \<longleftrightarrow> c \<in> set [CHR 0x09, CHR 0x0A, CHR 0x0B, CHR 0x0C, CHR 0x0D,
     CHR 0x1C, CHR 0x1D, CHR 0x1E, CHR 0x1F, CHR 0x20, CHR 0x85, CHR 0xA0]"

definition is_digit :: "char \<Rightarrow> bool" where
  "is_digit c \<longleftrightarrow> c \<in> set ''0123456789''"

definition is_linebreak :: "char \<Rightarrow> bool" where
  "is_linebreak c \<longleftrightarrow> c \<in> set [CHR 0x0A, CHR 0x0B, CHR 0x0C, CHR 0x0D,
     CHR 0x1C, CHR 0x1D, CHR 0x1E, CHR 0x85]"

text \<open>\<open>s.strip()\<close>: whitespace removed from both ends.\<close>

definition strip :: "string \<Rightarrow> string" where
  "strip s = rev (dropWhile is_space (rev (dropWhile is_space s)))"

text \<open>\<open>s.startswith(p)\<close> is \<open>prefix p s\<close>. \<open>sep.join(xs)\<close>:\<close>

fun join :: "string \<Rightarrow> string list \<Rightarrow> string" where
  "join sep [] = []"
| "join sep [x] = x"
| "join sep (x # y # ys) = x @ sep @ join sep (y # ys)"

text \<open>
  \<open>s.split(sep)\<close> for a non-empty separator: the pieces between the non-overlapping
  occurrences of \<open>sep\<close>, found from the left; always at least one piece.
\<close>

function split_str :: "string \<Rightarrow> string \<Rightarrow> string list" where
  "split_str sep [] = [[]]"
| "split_str sep (c # cs) =
     (if sep \<noteq> [] \<and> prefix sep (c # cs)
      then [] # split_str sep (drop (length sep) (c # cs))
      else (case split_str sep cs of [] \<Rightarrow> [[c]] | p # ps \<Rightarrow> (c # p) # ps))"
  by pat_completeness auto
termination
  by (relation "measure (\<lambda>(sep, s). length s)") (auto simp: neq_Nil_conv)

text \<open>
  \<open>s.splitlines()\<close>: lines without their terminators; \<open>\r\n\<close> is one terminator; a
  terminator at the very end opens no further line; the empty text has no line.
\<close>

function splitlines :: "string \<Rightarrow> string list" where
  "splitlines [] = []"
| "splitlines (c # cs) =
     (let s = c # cs; line = takeWhile (\<lambda>x. \<not> is_linebreak x) s in
      case dropWhile (\<lambda>x. \<not> is_linebreak x) s of
        [] \<Rightarrow> [line]
      | b # r \<Rightarrow> line # splitlines (if b = CR \<and> r \<noteq> [] \<and> hd r = LF then tl r else r))"
  by pat_completeness auto
termination
proof (relation "measure length", goal_cases)
  case 1
  show ?case by simp
next
  case (2 c cs s line b r)
  have "length (dropWhile (\<lambda>x. \<not> is_linebreak x) (c # cs)) \<le> length (c # cs)"
    by (rule length_dropWhile_le)
  with 2 have "length r < length (c # cs)" by simp
  moreover have "length (tl r) \<le> length r" by simp
  ultimately show ?case by auto
qed

text \<open>\<open>int(ds)\<close> on a run of digits, and \<open>str(n)\<close> as used by the f-string.\<close>

definition max_str_digits :: int where
  "max_str_digits = 4300"

definition sys_maxsize :: int where
  "sys_maxsize = 2 ^ 63 - 1"

definition py_int :: "string \<Rightarrow> int option" where
  "py_int ds =
     (if int (length ds) > max_str_digits then None
      else Some (foldl (\<lambda>a c. 10 * a + (int (of_char c) - 48)) 0 ds))"

fun nat_digits :: "nat \<Rightarrow> string" where
  "nat_digits n = (if n < 10 then [char_of (48 + n)]
                   else nat_digits (n div 10) @ [char_of (48 + n mod 10)])"

definition py_str :: "int \<Rightarrow> string option" where
  "py_str i =
     (let ds = nat_digits (nat \<bar>i\<bar>) in
      if int (length ds) > max_str_digits then None
      else Some (if i < 0 then CHR ''-'' # ds else ds))"


text \<open>\<open>list(range(a, b))\<close> in a runtime that can allocate \<open>cap\<close> list items.\<close>

definition list_limit :: "int \<Rightarrow> int" where
  "list_limit cap = min cap sys_maxsize"

definition py_list_range :: "int \<Rightarrow> int \<Rightarrow> int \<Rightarrow> int list option" where
  "py_list_range cap a b =
     (if b - a > list_limit cap then None else Some [a .. b - 1])"

text \<open>Operations that can raise: \<open>xs[i]\<close>, \<open>xs[i] = v\<close>, \<open>max(xs)\<close>, \<open>min(xs)\<close>, \<open>d[k]\<close>.\<close>

definition py_index :: "'a list \<Rightarrow> nat \<Rightarrow> 'a option" where
  "py_index xs i = (if i < length xs then Some (xs ! i) else None)"

definition py_store :: "'a list \<Rightarrow> nat \<Rightarrow> 'a \<Rightarrow> 'a list option" where
  "py_store xs i v = (if i < length xs then Some (xs[i := v]) else None)"

fun py_max :: "int list \<Rightarrow> int option" where
  "py_max [] = None"
| "py_max (x # xs) = Some (fold max xs x)"

fun py_min :: "int list \<Rightarrow> int option" where
  "py_min [] = None"
| "py_min (x # xs) = Some (fold min xs x)"

text \<open>A \<open>for\<close> loop whose body may raise: the state is threaded, the first error ends it.\<close>

fun for_loop :: "'a list \<Rightarrow> ('a \<Rightarrow> 's \<Rightarrow> 's option) \<Rightarrow> 's \<Rightarrow> 's option" where
  "for_loop [] body s = Some s"
| "for_loop (x # xs) body s =
     (case body x s of None \<Rightarrow> None | Some s' \<Rightarrow> for_loop xs body s')"

section \<open>The regular expressions of \<open>app.py\<close>\<close>

text \<open>
  Every pattern of the program is a sequence of literals and greedy repetitions of one
  character class. \<open>matches\<close> lists the ways a pattern matches at the start of a text
  in the order the backtracking matcher tries them (a greedy repetition gives back one
  character at a time); each way is the text taken by every item, and the rest.
  The matcher returns the first way.
\<close>

datatype atom = Lit string | Star "char \<Rightarrow> bool" | Plus "char \<Rightarrow> bool"

fun countdown :: "nat \<Rightarrow> nat \<Rightarrow> nat list" where
  "countdown lo 0 = (if lo = 0 then [0] else [])"
| "countdown lo (Suc n) = (if lo \<le> Suc n then Suc n # countdown lo n else [])"

fun atom_lens :: "atom \<Rightarrow> string \<Rightarrow> nat list" where
  "atom_lens (Lit l) s = (if prefix l s then [length l] else [])"
| "atom_lens (Star p) s = countdown 0 (length (takeWhile p s))"
| "atom_lens (Plus p) s = countdown 1 (length (takeWhile p s))"

fun matches :: "atom list \<Rightarrow> string \<Rightarrow> (string list \<times> string) list" where
  "matches [] s = [([], s)]"
| "matches (a # as) s =
     concat (map (\<lambda>n. map (\<lambda>(gs, r). (take n s # gs, r)) (matches as (drop n s)))
                 (atom_lens a s))"

definition match_at :: "atom list \<Rightarrow> string \<Rightarrow> (string list \<times> string) option" where
  "match_at pat s = (case matches pat s of [] \<Rightarrow> None | m # _ \<Rightarrow> Some m)"

text \<open>\<open>re.search\<close>: the match at the leftmost position that has one.\<close>

fun re_search :: "atom list \<Rightarrow> string \<Rightarrow> (string list \<times> string) option" where
  "re_search pat [] = match_at pat []"
| "re_search pat (c # cs) =
     (case match_at pat (c # cs) of Some m \<Rightarrow> Some m | None \<Rightarrow> re_search pat cs)"

text \<open>
  \<open>re.finditer\<close> and \<open>re.sub\<close>: the non-overlapping matches from the left; the scan
  resumes where a match ended. The patterns of this program take at least one character,
  so the branch for a match that took none only keeps the functions total.
\<close>

function re_finditer :: "atom list \<Rightarrow> string \<Rightarrow> string list list" where
  "re_finditer pat [] = (case match_at pat [] of None \<Rightarrow> [] | Some (gs, r) \<Rightarrow> [gs])"
| "re_finditer pat (c # cs) =
     (case match_at pat (c # cs) of
        None \<Rightarrow> re_finditer pat cs
      | Some (gs, r) \<Rightarrow>
          gs # (if length r \<le> length cs then re_finditer pat r else re_finditer pat cs))"
  by pat_completeness auto
termination
  by (relation "measure (\<lambda>(pat, s). length s)") auto

function re_sub :: "atom list \<Rightarrow> string \<Rightarrow> string \<Rightarrow> string" where
  "re_sub pat repl [] = (case match_at pat [] of None \<Rightarrow> [] | Some m \<Rightarrow> repl)"
| "re_sub pat repl (c # cs) =
     (case match_at pat (c # cs) of
        None \<Rightarrow> c # re_sub pat repl cs
      | Some (gs, r) \<Rightarrow>
          (if length r \<le> length cs then repl @ re_sub pat repl r
           else repl @ c # re_sub pat repl cs))"
  by pat_completeness auto
termination
  by (relation "measure (\<lambda>(pat, repl, s). length s)") auto

text \<open>The four patterns: \<open>=852\s+[^$]*\$p(\d+)\<close>, \<open>(=852\s+[^\n]*)\<close>, \<open>\$p\d+\<close>, \<open>=852\<close>.\<close>

definition p_value_pat :: "atom list" where
  "p_value_pat = [Lit ''=852'', Plus is_space, Star (\<lambda>c. c \<noteq> CHR ''$''), Lit ''$p'',
                  Plus is_digit]"

definition template_pat :: "atom list" where
  "template_pat = [Lit ''=852'', Plus is_space, Star (\<lambda>c. c \<noteq> LF)]"

definition p_subfield_pat :: "atom list" where
  "p_subfield_pat = [Lit ''$p'', Plus is_digit]"

definition field_852_pat :: "atom list" where
  "field_852_pat = [Lit ''=852'']"

section \<open>The MARC processing functions\<close>

text \<open>
  \<open>get_p_values\<close>: group 1 of every match (the text taken by the last item of the
  pattern, the digit run), converted by \<open>int\<close> in the order of the matches, then sorted.
\<close>

definition get_p_values :: "string \<Rightarrow> int list option" where
  "get_p_values text =
     map_option sort (those (map (\<lambda>gs. py_int (last gs)) (re_finditer p_value_pat text)))"

text \<open>\<open>get_852_field_template\<close>: the first record with a match gives the template.\<close>

fun get_852_field_template :: "string list \<Rightarrow> string option" where
  "get_852_field_template [] = None"
| "get_852_field_template (record # records) =
     (case re_search template_pat record of
        Some (gs, r) \<Rightarrow> Some (concat gs)
      | None \<Rightarrow> get_852_field_template records)"

text \<open>
  \<open>find_missing_852_fields\<close>. The dictionary \<open>missing_fields\<close> is an association list
  from record ordinals to value lists. The first loop collects the markers of all
  records, the second (Rule A) visits every record, the third (Rule B) every pair of
  neighbours.
\<close>

type_synonym missing = "(nat \<times> int list) list"

definition collect_p_values :: "string list \<Rightarrow> int list option" where
  "collect_p_values records =
     for_loop records
       (\<lambda>record all_p_values. do { p_values \<leftarrow> get_p_values record;
                                   Some (all_p_values @ p_values) }) []"

definition prev_records_p_values :: "string list \<Rightarrow> nat \<Rightarrow> int list option" where
  "prev_records_p_values records i =
     for_loop [0..<i]
       (\<lambda>j acc. do { r \<leftarrow> py_index records j; p_values \<leftarrow> get_p_values r;
                     Some (acc @ p_values) }) []"

definition rule_a_body ::
  "string list \<Rightarrow> int list \<Rightarrow> nat \<times> string \<Rightarrow> missing \<Rightarrow> missing option" where
  "rule_a_body records all_p_values = (\<lambda>(i, record) missing_fields. do {
     current_p_values \<leftarrow> get_p_values record;
     if current_p_values = [] then
       if i = 0 then
         (if all_p_values \<noteq> []
          then do { v \<leftarrow> py_index all_p_values 0;
                    Some (AList.update i [v] missing_fields) }
          else Some missing_fields)
       else do {
         prev \<leftarrow> prev_records_p_values records i;
         if prev \<noteq> []
         then do { m \<leftarrow> py_max prev; Some (AList.update i [m + 1] missing_fields) }
         else if all_p_values \<noteq> []
         then do { v \<leftarrow> py_index all_p_values 0;
                   Some (AList.update i [v] missing_fields) }
         else Some missing_fields }
     else Some missing_fields })"

definition rule_a :: "string list \<Rightarrow> int list \<Rightarrow> missing option" where
  "rule_a records all_p_values =
     for_loop (enumerate 0 records) (rule_a_body records all_p_values) []"

definition rule_b_body :: "int \<Rightarrow> string list \<Rightarrow> nat \<Rightarrow> missing \<Rightarrow> missing option" where
  "rule_b_body cap records i missing_fields = do {
     cur \<leftarrow> py_index records i;
     current_p_values \<leftarrow> get_p_values cur;
     nxt \<leftarrow> py_index records (i + 1);
     next_p_values \<leftarrow> get_p_values nxt;
     if current_p_values \<noteq> [] \<and> next_p_values \<noteq> [] then do {
       last_p \<leftarrow> py_max current_p_values;
       first_next_p \<leftarrow> py_min next_p_values;
       missing \<leftarrow> py_list_range cap (last_p + 1) first_next_p;
       if missing \<noteq> [] then
         (if i \<in> fst ` set missing_fields
          then do { old \<leftarrow> map_of missing_fields i;
                    Some (AList.update i (old @ missing) missing_fields) }
          else Some (AList.update i missing missing_fields))
       else Some missing_fields }
     else Some missing_fields }"

definition rule_b :: "int \<Rightarrow> string list \<Rightarrow> missing \<Rightarrow> missing option" where
  "rule_b cap records missing_fields =
     for_loop [0..<length records - 1] (rule_b_body cap records) missing_fields"

definition find_missing_852_fields :: "int \<Rightarrow> string list \<Rightarrow> missing option" where
  "find_missing_852_fields cap records = do {
     all_p_values \<leftarrow> collect_p_values records;
     if all_p_values = [] then Some []
     else do {
       let all_p_values = sort (remdups all_p_values);
       missing_fields \<leftarrow> rule_a records all_p_values;
       rule_b cap records missing_fields } }"

text \<open>
  \<open>add_missing_852_fields\<close>. \<open>scan_lines i ls ins\<close> is the loop over the lines from
  index \<open>i\<close> on, with \<open>insert_index = ins\<close>; the \<open>break\<close> is the branch that returns.
  \<open>new_852\<close> is one round of the loop over the missing values.
\<close>

fun scan_lines :: "nat \<Rightarrow> string list \<Rightarrow> nat \<Rightarrow> nat" where
  "scan_lines i [] ins = ins"
| "scan_lines i (line # ls) ins =
     (if prefix ''=653'' line then scan_lines (i + 1) ls (i + 1)
      else if prefix ''=LDR'' line \<and> i > 0 then i
      else scan_lines (i + 1) ls ins)"

definition insert_index :: "string list \<Rightarrow> nat" where
  "insert_index lines = scan_lines 0 lines (length lines)"

definition new_852 :: "string \<Rightarrow> int \<Rightarrow> string option" where
  "new_852 template_852 missing_p = do {
     digits \<leftarrow> py_str missing_p;
     Some (re_sub p_subfield_pat (''$p'' @ digits) template_852) }"

definition add_missing_852_fields ::
  "string \<Rightarrow> int list \<Rightarrow> string option \<Rightarrow> string option" where
  "add_missing_852_fields record missing_values template_852 =
     (case template_852 of
        None \<Rightarrow> Some record
      | Some t \<Rightarrow>
          if missing_values = [] \<or> t = [] then Some record
          else do {
            let lines = splitlines record;
            let k = insert_index lines;
            fields \<leftarrow> those (map (new_852 t) missing_values);
            Some (join [LF] (take k lines @ fields @ drop k lines)) })"

text \<open>
  \<open>process_marc_records\<close>. \<open>record_list\<close> is its first block, which splits the input
  into records; \<open>add_body\<close> is the body of its loop over the sorted keys.
\<close>

definition split_records :: "string \<Rightarrow> string list \<Rightarrow> string list" where
  "split_records part0 parts1 =
     (if strip part0 \<noteq> [] then [strip part0] else []) @
     map (\<lambda>part. ''=LDR'' @ part) (filter (\<lambda>part. strip part \<noteq> []) parts1)"

definition add_body ::
  "missing \<Rightarrow> string option \<Rightarrow> nat \<Rightarrow> string list \<Rightarrow> string list option" where
  "add_body missing_fields template_852 record_index records = do {
     record \<leftarrow> py_index records record_index;
     vs \<leftarrow> map_of missing_fields record_index;
     record' \<leftarrow> add_missing_852_fields record vs template_852;
     py_store records record_index record' }"

definition record_list :: "string \<Rightarrow> string list option" where
  "record_list input_text = do {
     let parts = split_str ''=LDR'' (strip input_text);
     part0 \<leftarrow> py_index parts 0;
     Some (split_records part0 (tl parts)) }"

definition process_marc_records :: "int \<Rightarrow> string \<Rightarrow> string option" where
  "process_marc_records cap input_text = do {
     records \<leftarrow> record_list input_text;
     if records = [] then Some input_text
     else
       case get_852_field_template records of
         None \<Rightarrow> Some input_text
       | Some t \<Rightarrow>
           if t = [] then Some input_text
           else do {
             missing_fields \<leftarrow> find_missing_852_fields cap records;
             records' \<leftarrow> for_loop (sort (map fst missing_fields))
                                  (add_body missing_fields (Some t)) records;
             Some (join [LF, LF] records') } }"

text \<open>\<open>get_processing_stats\<close>.\<close>

record stats =
  original_records :: int
  processed_records :: int
  original_852_fields :: int
  processed_852_fields :: int
  added_fields :: int

definition count_records :: "string \<Rightarrow> int" where
  "count_records text =
     int (length (filter (\<lambda>r. strip r \<noteq> []) (split_str ([LF, LF] @ ''=LDR'') text)))"

definition count_852 :: "string \<Rightarrow> int" where
  "count_852 text = int (length (re_finditer field_852_pat text))"

definition get_processing_stats :: "string \<Rightarrow> string \<Rightarrow> stats" where
  "get_processing_stats original_text processed_text =
     \<lparr> original_records = count_records original_text,
       processed_records = count_records processed_text,
       original_852_fields = count_852 original_text,
       processed_852_fields = count_852 processed_text,
       added_fields = count_852 processed_text - count_852 original_text \<rparr>"

section \<open>The rules of the specification\<close>

text \<open>
  The markers of every record, when all of them convert. On that list \<open>pvs\<close>: the markers
  of the records strictly before ordinal \<open>i\<close>, the value Rule A names for a record
  without markers, and the values Rule B names for a pair of neighbours.
\<close>

definition p_values_of :: "string list \<Rightarrow> int list list option" where
  "p_values_of records = those (map get_p_values records)"

definition p_values_before :: "int list list \<Rightarrow> nat \<Rightarrow> int list" where
  "p_values_before pvs i = concat (take i pvs)"

definition rule_a_value :: "int list list \<Rightarrow> nat \<Rightarrow> int" where
  "rule_a_value pvs i =
     (if i = 0 \<or> p_values_before pvs i = [] then Min (set (concat pvs))
      else Max (set (p_values_before pvs i)) + 1)"

definition last_p :: "int list list \<Rightarrow> nat \<Rightarrow> int" where
  "last_p pvs i = Max (set (pvs ! i))"

definition first_next_p :: "int list list \<Rightarrow> nat \<Rightarrow> int" where
  "first_next_p pvs i = Min (set (pvs ! (i + 1)))"

definition rule_b_applies :: "int list list \<Rightarrow> nat \<Rightarrow> bool" where
  "rule_b_applies pvs i \<longleftrightarrow>
     i + 1 < length pvs \<and> pvs ! i \<noteq> [] \<and> pvs ! (i + 1) \<noteq> [] \<and>
     first_next_p pvs i - last_p pvs i > 1"

definition values_of :: "missing \<Rightarrow> nat \<Rightarrow> int list" where
  "values_of missing_fields i = (case map_of missing_fields i of None \<Rightarrow> [] | Some vs \<Rightarrow> vs)"

text \<open>
  The gaps fit when, for every pair of neighbours that both have markers, the integers
  strictly between the largest marker of the first and the smallest of the second are
  no more than the runtime can hold in a list.
\<close>

definition gaps_fit :: "int \<Rightarrow> int list list \<Rightarrow> bool" where
  "gaps_fit cap pvs \<longleftrightarrow>
     list_all (\<lambda>i. pvs ! i = [] \<or> pvs ! (i + 1) = [] \<or>
                  first_next_p pvs i - last_p pvs i - 1 \<le> list_limit cap)
              [0..<length pvs - 1]"

text \<open>
  The dictionary after the first \<open>k\<close> rounds of each loop, as a function of the ordinal.
\<close>

definition rule_a_map :: "int list list \<Rightarrow> nat \<Rightarrow> nat \<Rightarrow> int list option" where
  "rule_a_map pvs k i =
     (if i < k \<and> pvs ! i = [] then Some [rule_a_value pvs i] else None)"

definition gap_values :: "int list list \<Rightarrow> nat \<Rightarrow> int list" where
  "gap_values pvs i = [last_p pvs i + 1 .. first_next_p pvs i - 1]"

definition rule_b_map :: "int list list \<Rightarrow> missing \<Rightarrow> nat \<Rightarrow> nat \<Rightarrow> int list option" where
  "rule_b_map pvs a k i =
     (if i < k \<and> rule_b_applies pvs i then Some (values_of a i @ gap_values pvs i)
      else map_of a i)"

section \<open>The insertion point of the specification\<close>

text \<open>
  The positions, other than the first line, of the lines that begin with the record-start
  marker; the positions among the first \<open>k\<close> lines of those that begin with the
  subject-heading marker; the index right after the last of these, or the end of the
  record when there is none; and the insertion point: before the first embedded
  record-start line if there is one, otherwise after the last subject-heading line.
\<close>

definition embedded_ldr :: "string list \<Rightarrow> nat list" where
  "embedded_ldr lines = filter (\<lambda>i. prefix ''=LDR'' (lines ! i)) [1..<length lines]"

definition subject_lines :: "string list \<Rightarrow> nat \<Rightarrow> nat list" where
  "subject_lines lines k = filter (\<lambda>i. prefix ''=653'' (lines ! i)) [0..<k]"

definition after_last_subject :: "string list \<Rightarrow> nat \<Rightarrow> nat" where
  "after_last_subject lines k =
     (if subject_lines lines k = [] then length lines else last (subject_lines lines k) + 1)"

definition insertion_point :: "string list \<Rightarrow> nat" where
  "insertion_point lines =
     (case embedded_ldr lines of
        k # _ \<Rightarrow> k
      | [] \<Rightarrow> after_last_subject lines (length lines))"

text \<open>A text without any occurrence of the record-start marker.\<close>

definition ldr_free :: "string \<Rightarrow> bool" where
  "ldr_free s \<longleftrightarrow> (\<forall>i. \<not> prefix ''=LDR'' (drop i s))"

text \<open>The number of matches of \<open>=852\<close> in a text, as a natural number.\<close>

definition occ_852 :: "string \<Rightarrow> nat" where
  "occ_852 text = length (re_finditer field_852_pat text)"

section \<open>Loops and partial operations\<close>

lemma for_loop_append:
  "for_loop (xs @ ys) body s =
     (case for_loop xs body s of None \<Rightarrow> None | Some s' \<Rightarrow> for_loop ys body s')"
  by (induction xs arbitrary: s) (auto split: option.splits)

lemma py_max_eq: "xs \<noteq> [] \<Longrightarrow> py_max xs = Some (Max (set xs))"
proof (cases xs)
  case (Cons a list)
  show ?thesis using Max.set_eq_fold [of a list] by (simp add: Cons)
qed simp

lemma py_min_eq: "xs \<noteq> [] \<Longrightarrow> py_min xs = Some (Min (set xs))"
proof (cases xs)
  case (Cons a list)
  show ?thesis using Min.set_eq_fold [of a list] by (simp add: Cons)
qed simp

lemma those_Some_iff: "those xs = Some ys \<longleftrightarrow> xs = map Some ys"
  by (induction xs arbitrary: ys) (auto split: option.splits)

lemma those_None_iff: "those xs = None \<longleftrightarrow> None \<in> set xs"
  by (induction xs) (auto split: option.splits)

lemma p_values_of_length: "p_values_of records = Some pvs \<Longrightarrow> length pvs = length records"
  unfolding p_values_of_def those_Some_iff by (metis length_map)

lemma p_values_of_nth:
  "p_values_of records = Some pvs \<Longrightarrow> i < length records \<Longrightarrow>
   get_p_values (records ! i) = Some (pvs ! i)"
  unfolding p_values_of_def those_Some_iff
  by (metis length_map nth_map)

lemma p_values_of_None:
  "p_values_of records = None \<longleftrightarrow> (\<exists>r \<in> set records. get_p_values r = None)"
  unfolding p_values_of_def those_None_iff by force

lemma collect_loop:
  "for_loop rs (\<lambda>record all_p_values. do { p_values \<leftarrow> get_p_values record;
                                   Some (all_p_values @ p_values) }) acc
     = map_option (\<lambda>pvs. acc @ concat pvs) (p_values_of rs)"
proof (induction rs arbitrary: acc)
  case Nil
  show ?case by (simp add: p_values_of_def)
next
  case (Cons r rs)
  show ?case
  proof (cases "get_p_values r")
    case None
    then show ?thesis by (simp add: p_values_of_def)
  next
    case (Some vs)
    then show ?thesis using Cons [of "acc @ vs"]
      by (cases "those (map get_p_values rs)") (simp_all add: p_values_of_def)
  qed
qed

lemma collect_p_values_eq: "collect_p_values records = map_option concat (p_values_of records)"
  unfolding collect_p_values_def collect_loop by (cases "p_values_of records") simp_all

lemma prev_records_p_values_eq:
  assumes "p_values_of records = Some pvs"
  shows "i \<le> length records \<Longrightarrow>
         prev_records_p_values records i = Some (p_values_before pvs i)"
  unfolding prev_records_p_values_def p_values_before_def
proof (induction i)
  case 0
  show ?case by simp
next
  case (Suc i)
  then have i: "i < length records" by simp
  then have "take (Suc i) pvs = take i pvs @ [pvs ! i]"
    using p_values_of_length [OF assms] by (simp add: take_Suc_conv_app_nth)
  with Suc i show ?case
    by (simp add: for_loop_append py_index_def p_values_of_nth [OF assms])
qed

lemma hd_sort_remdups: "xs \<noteq> [] \<Longrightarrow> hd (sort (remdups xs)) = Min (set xs)"
proof -
  assume ne: "xs \<noteq> []"
  let ?ys = "sort (remdups xs)"
  have s: "set ?ys = set xs" by simp
  then have "?ys \<noteq> []" using ne by (metis set_empty)
  then obtain y ys where ys: "?ys = y # ys" by (cases ?ys) auto
  have "sorted ?ys" by simp
  then have "\<forall>z\<in>set ys. y \<le> z" unfolding ys by simp
  then have "Min (set ?ys) = y" unfolding ys
    by (intro Min_eqI) auto
  then show ?thesis using s ys by simp
qed

section \<open>Gap detection\<close>

lemma rule_a_body_step:
  assumes pv: "p_values_of records = Some pvs" and ne: "concat pvs \<noteq> []"
    and k: "k < length records"
  shows "\<exists>m'. rule_a_body records (sort (remdups (concat pvs))) (k, records ! k) m = Some m'
          \<and> map_of m' = (if pvs ! k = []
               then (map_of m)(k \<mapsto> [rule_a_value pvs k]) else map_of m)"
proof -
  let ?all = "sort (remdups (concat pvs))"
  have all_ne: "?all \<noteq> []" using ne by (metis set_empty set_remdups set_sort)
  have idx: "py_index ?all 0 = Some (Min (set (concat pvs)))"
    using ne all_ne hd_sort_remdups [OF ne] by (simp add: py_index_def hd_conv_nth)
  have prev: "prev_records_p_values records k = Some (p_values_before pvs k)"
    using k by (simp add: prev_records_p_values_eq [OF pv])
  have cur: "get_p_values (records ! k) = Some (pvs ! k)"
    using k by (rule p_values_of_nth [OF pv])
  show ?thesis
    using all_ne idx prev cur
    by (auto simp: rule_a_body_def rule_a_value_def AList.update_conv' py_max_eq)
qed

lemma rule_a_loop:
  assumes pv: "p_values_of records = Some pvs" and ne: "concat pvs \<noteq> []"
  shows "k \<le> length records \<Longrightarrow>
    \<exists>m. for_loop (take k (enumerate 0 records))
           (rule_a_body records (sort (remdups (concat pvs)))) [] = Some m
        \<and> map_of m = rule_a_map pvs k"
proof (induction k)
  case 0
  show ?case by (auto simp: rule_a_map_def)
next
  case (Suc k)
  then have k: "k < length records" by simp
  from Suc obtain m where m: "for_loop (take k (enumerate 0 records))
           (rule_a_body records (sort (remdups (concat pvs)))) [] = Some m"
    and mm: "map_of m = rule_a_map pvs k" by auto
  have tk: "take (Suc k) (enumerate 0 records) = take k (enumerate 0 records) @ [(k, records ! k)]"
    using k by (simp add: take_Suc_conv_app_nth nth_enumerate_eq)
  from rule_a_body_step [OF pv ne k, of m] obtain m' where
    m': "rule_a_body records (sort (remdups (concat pvs))) (k, records ! k) m = Some m'"
    and mm': "map_of m' = (if pvs ! k = []
               then (map_of m)(k \<mapsto> [rule_a_value pvs k]) else map_of m)" by blast
  have "map_of m' = rule_a_map pvs (Suc k)"
    unfolding mm' mm by (auto simp: rule_a_map_def fun_eq_iff less_Suc_eq)
  then show ?case by (simp add: tk for_loop_append m m')
qed

lemma rule_a_eq:
  assumes pv: "p_values_of records = Some pvs" and ne: "concat pvs \<noteq> []"
  shows "\<exists>m. rule_a records (sort (remdups (concat pvs))) = Some m
        \<and> map_of m = rule_a_map pvs (length records)"
  using rule_a_loop [OF pv ne, of "length records"] by (simp add: rule_a_def)

text \<open>One pair of neighbours fits when its range can be built.\<close>

lemma gaps_fit_iff:
  "gaps_fit cap pvs \<longleftrightarrow>
     (\<forall>i < length pvs - 1. pvs ! i = [] \<or> pvs ! (i + 1) = [] \<or>
        first_next_p pvs i - last_p pvs i - 1 \<le> list_limit cap)"
  by (auto simp: gaps_fit_def list_all_iff)

lemma rule_b_body_step:
  assumes pv: "p_values_of records = Some pvs" and k: "k + 1 < length records"
  shows "if pvs ! k = [] \<or> pvs ! (k + 1) = [] \<or>
            first_next_p pvs k - last_p pvs k - 1 \<le> list_limit cap
         then \<exists>m'. rule_b_body cap records k m = Some m'
                \<and> map_of m' = (if rule_b_applies pvs k
                     then (map_of m)(k \<mapsto> values_of m k @ gap_values pvs k) else map_of m)
         else rule_b_body cap records k m = None"
proof -
  have len: "length pvs = length records" by (rule p_values_of_length [OF pv])
  have cur: "get_p_values (records ! k) = Some (pvs ! k)"
    using k by (intro p_values_of_nth [OF pv]) simp
  have nxt: "get_p_values (records ! (k + 1)) = Some (pvs ! (k + 1))"
    using k by (intro p_values_of_nth [OF pv]) simp
  have idx: "py_index records k = Some (records ! k)"
    "py_index records (k + 1) = Some (records ! (k + 1))"
    using k by (simp_all add: py_index_def)
  show ?thesis
  proof (cases "pvs ! k \<noteq> [] \<and> pvs ! (k + 1) \<noteq> []")
    case False
    then show ?thesis
      using idx cur nxt by (auto simp: rule_b_body_def rule_b_applies_def)
  next
    case True
    then have mx: "py_max (pvs ! k) = Some (last_p pvs k)"
      and mn: "py_min (pvs ! (k + 1)) = Some (first_next_p pvs k)"
      by (simp_all add: py_max_eq py_min_eq last_p_def first_next_p_def)
    show ?thesis
    proof (cases "first_next_p pvs k - last_p pvs k - 1 \<le> list_limit cap")
      case False
      with True show ?thesis
        using idx cur nxt mx mn by (simp add: rule_b_body_def py_list_range_def)
    next
      case fit: True
      then have rg: "py_list_range cap (last_p pvs k + 1) (first_next_p pvs k)
                       = Some (gap_values pvs k)"
        by (simp add: py_list_range_def gap_values_def)
      show ?thesis
      proof (cases "rule_b_applies pvs k")
        case False
        with True have "gap_values pvs k = []"
          using k len by (simp add: rule_b_applies_def gap_values_def)
        with True fit False show ?thesis
          using idx cur nxt mx mn rg by (simp add: rule_b_body_def)
      next
        case ap: True
        then have gap: "gap_values pvs k \<noteq> []"
          by (simp add: rule_b_applies_def gap_values_def)
        show ?thesis
        proof (cases "map_of m k")
          case None
          then have "k \<notin> fst ` set m" by (simp add: map_of_eq_None_iff)
          with True fit ap gap None show ?thesis
            using idx cur nxt mx mn rg
            by (simp add: rule_b_body_def values_of_def AList.update_conv')
        next
          case (Some vs)
          then have "k \<in> fst ` set m" by (metis map_of_eq_None_iff option.distinct(1))
          with True fit ap gap Some show ?thesis
            using idx cur nxt mx mn rg
            by (simp add: rule_b_body_def values_of_def AList.update_conv')
        qed
      qed
    qed
  qed
qed

lemma rule_b_loop:
  assumes pv: "p_values_of records = Some pvs"
  shows "k \<le> length records - 1 \<Longrightarrow>
    (if \<forall>i < k. pvs ! i = [] \<or> pvs ! (i + 1) = [] \<or>
          first_next_p pvs i - last_p pvs i - 1 \<le> list_limit cap
     then \<exists>m. for_loop [0..<k] (rule_b_body cap records) a = Some m
            \<and> map_of m = rule_b_map pvs a k
     else for_loop [0..<k] (rule_b_body cap records) a = None)"
proof (induction k)
  case 0
  show ?case by (auto simp: rule_b_map_def)
next
  case (Suc k)
  then have k: "k + 1 < length records" by simp
  let ?fit = "\<lambda>i. pvs ! i = [] \<or> pvs ! (i + 1) = [] \<or>
          first_next_p pvs i - last_p pvs i - 1 \<le> list_limit cap"
  show ?case
  proof (cases "\<forall>i < k. ?fit i")
    case False
    with Suc have "for_loop [0..<k] (rule_b_body cap records) a = None" by simp
    moreover have "\<not> (\<forall>i < Suc k. ?fit i)" using False by (auto simp: less_Suc_eq)
    ultimately show ?thesis by (simp add: for_loop_append)
  next
    case True
    with Suc obtain m where m: "for_loop [0..<k] (rule_b_body cap records) a = Some m"
      and mm: "map_of m = rule_b_map pvs a k" by auto
    show ?thesis
    proof (cases "?fit k")
      case False
      then have "rule_b_body cap records k m = None"
        using rule_b_body_step [OF pv k, of cap m] by simp
      moreover have "\<not> (\<forall>i < Suc k. ?fit i)" using False by auto
      ultimately show ?thesis using m by (simp add: for_loop_append)
    next
      case fit: True
      then obtain m' where m': "rule_b_body cap records k m = Some m'"
        and mm': "map_of m' = (if rule_b_applies pvs k
               then (map_of m)(k \<mapsto> values_of m k @ gap_values pvs k) else map_of m)"
        using rule_b_body_step [OF pv k, of cap m] by auto
      have vk: "values_of m k = values_of a k"
        by (simp add: values_of_def mm rule_b_map_def)
      have "map_of m' = rule_b_map pvs a (Suc k)"
        unfolding mm' vk mm by (auto simp: rule_b_map_def fun_eq_iff less_Suc_eq)
      moreover have "\<forall>i < Suc k. ?fit i" using True fit by (auto simp: less_Suc_eq)
      ultimately show ?thesis using m m' by (simp add: for_loop_append)
    qed
  qed
qed

lemma rule_b_eq:
  assumes pv: "p_values_of records = Some pvs"
  shows "if gaps_fit cap pvs
         then \<exists>m. rule_b cap records a = Some m \<and> map_of m = rule_b_map pvs a (length records - 1)
         else rule_b cap records a = None"
  using rule_b_loop [OF pv, of "length records - 1" cap a] p_values_of_length [OF pv]
  by (auto simp: rule_b_def gaps_fit_iff split: if_splits)

lemma find_missing_unparsed:
  "p_values_of records = None \<Longrightarrow> find_missing_852_fields cap records = None"
  by (simp add: find_missing_852_fields_def collect_p_values_eq)

lemma find_missing_empty:
  "p_values_of records = Some pvs \<Longrightarrow> concat pvs = [] \<Longrightarrow>
   find_missing_852_fields cap records = Some []"
  by (simp add: find_missing_852_fields_def collect_p_values_eq)

lemma find_missing_eq:
  assumes pv: "p_values_of records = Some pvs" and ne: "concat pvs \<noteq> []"
    and fit: "gaps_fit cap pvs"
  shows "\<exists>a m. rule_a records (sort (remdups (concat pvs))) = Some a
           \<and> map_of a = rule_a_map pvs (length records)
           \<and> find_missing_852_fields cap records = Some m
           \<and> map_of m = rule_b_map pvs a (length records - 1)"
proof -
  from rule_a_eq [OF pv ne] obtain a where
    a: "rule_a records (sort (remdups (concat pvs))) = Some a"
    and ma: "map_of a = rule_a_map pvs (length records)" by blast
  from rule_b_eq [OF pv, of cap a] fit obtain m where
    m: "rule_b cap records a = Some m"
    and mm: "map_of m = rule_b_map pvs a (length records - 1)" by auto
  have "find_missing_852_fields cap records = Some m"
    using ne a m by (auto simp: find_missing_852_fields_def collect_p_values_eq pv)
  with a ma mm show ?thesis by blast
qed

lemma find_missing_unfit:
  assumes pv: "p_values_of records = Some pvs" and fit: "\<not> gaps_fit cap pvs"
  shows "find_missing_852_fields cap records = None"
proof -
  have ne: "concat pvs \<noteq> []"
  proof
    assume "concat pvs = []"
    then have "\<forall>i < length pvs. pvs ! i = []" using nth_mem by auto
    then have "gaps_fit cap pvs" by (auto simp: gaps_fit_iff)
    with fit show False by simp
  qed
  from rule_a_eq [OF pv ne] obtain a where
    a: "rule_a records (sort (remdups (concat pvs))) = Some a" by blast
  have "rule_b cap records a = None" using rule_b_eq [OF pv, of cap a] fit by simp
  then show ?thesis
    using ne a by (auto simp: find_missing_852_fields_def collect_p_values_eq pv)
qed

lemma find_missing_returns:
  assumes "find_missing_852_fields cap records = Some m"
  shows "\<exists>pvs. p_values_of records = Some pvs \<and> gaps_fit cap pvs"
proof (cases "p_values_of records")
  case None
  with assms show ?thesis by (simp add: find_missing_unparsed)
next
  case (Some pvs)
  with assms have "gaps_fit cap pvs" using find_missing_unfit [OF Some, of cap] by force
  with Some show ?thesis by blast
qed

text \<open>
  C1 (Rule A). Where every marker converts and the gaps fit, gap detection returns, and
  in a batch that has some marker a record without markers is assigned exactly one value:
  the smallest marker of the batch when it is the first record or no record before it
  has a marker, otherwise one more than the largest marker of the records strictly
  before it.
\<close>

theorem rule_a_assignment:
  assumes "p_values_of records = Some pvs" and "gaps_fit cap pvs"
    and "i < length records" and "pvs ! i = []" and "concat pvs \<noteq> []"
  shows "\<exists>m. find_missing_852_fields cap records = Some m \<and>
           map_of m i = Some [if i = 0 then Min (set (concat pvs))
                              else if p_values_before pvs i = []
                                   then Min (set (concat pvs))
                                   else Max (set (p_values_before pvs i)) + 1]"
proof -
  from find_missing_eq [OF assms(1,5,2)] obtain a m where
    ma: "map_of a = rule_a_map pvs (length records)"
    and m: "find_missing_852_fields cap records = Some m"
    and mm: "map_of m = rule_b_map pvs a (length records - 1)" by blast
  have "map_of m i = map_of a i"
    using assms(4) by (simp add: mm rule_b_map_def rule_b_applies_def)
  also have "\<dots> = Some [rule_a_value pvs i]"
    using assms(3,4) by (simp add: ma rule_a_map_def)
  finally show ?thesis using m by (auto simp: rule_a_value_def)
qed

theorem rule_a_assignment_witness:
  "p_values_of [''=852 $p4'', ''x''] = Some [[4], []] \<and> gaps_fit sys_maxsize [[4], []] \<and>
   1 < length [''=852 $p4'', ''x''] \<and> [[4], []] ! 1 = ([] :: int list) \<and>
   concat [[4], []] \<noteq> ([] :: int list) \<and>
   (\<exists>m. find_missing_852_fields sys_maxsize [''=852 $p4'', ''x''] = Some m \<and>
        map_of m 1 = Some [5])"
proof -
  have h1: "p_values_of [''=852 $p4'', ''x''] = Some [[4], []]" by code_simp
  have h2: "gaps_fit sys_maxsize [[4], []]" by code_simp
  have h3: "(1::nat) < length [''=852 $p4'', ''x'']" by simp
  have h4: "[[4], []] ! 1 = ([] :: int list)" by simp
  have h5: "concat [[4], []] \<noteq> ([] :: int list)" by simp
  have v: "(if (1::nat) = 0 then Min (set (concat [[4], []]))
            else if p_values_before [[4], []] 1 = []
                 then Min (set (concat [[4], []]))
                 else Max (set (p_values_before [[4], []] 1)) + 1) = (5::int)"
    by code_simp
  from rule_a_assignment [OF h1 h2 h3 h4 h5] show ?thesis
    unfolding v using h1 h2 h3 h4 h5 by blast
qed

text \<open>
  C2 (Rule B). Where every marker converts and the gaps fit, gap detection returns, and
  for neighbours \<open>i\<close>, \<open>i + 1\<close> that both have markers, with \<open>last\<close> the largest marker of
  record \<open>i\<close> and \<open>first\<close> the smallest of record \<open>i + 1\<close>: when \<open>first - last > 1\<close>,
  record \<open>i\<close> is assigned what Rule A had assigned to it followed by the integers from
  \<open>last + 1\<close> to \<open>first - 1\<close>, so every integer strictly between \<open>last\<close> and \<open>first\<close> is
  assigned to record \<open>i\<close>.
\<close>

theorem rule_b_assignment:
  assumes "p_values_of records = Some pvs" and "gaps_fit cap pvs"
    and "i + 1 < length records" and "pvs ! i \<noteq> []" and "pvs ! (i + 1) \<noteq> []"
    and "first_next_p pvs i - last_p pvs i > 1"
  shows "\<exists>a m. rule_a records (sort (remdups (concat pvs))) = Some a \<and>
           find_missing_852_fields cap records = Some m \<and>
           map_of m i = Some (values_of a i @
                              [last_p pvs i + 1 .. first_next_p pvs i - 1]) \<and>
           (\<forall>v. last_p pvs i < v \<and> v < first_next_p pvs i
                 \<longrightarrow> v \<in> set (values_of m i))"
proof -
  have len: "length pvs = length records" by (rule p_values_of_length [OF assms(1)])
  have "pvs ! i \<in> set pvs" using assms(3) len by simp
  then have ne: "concat pvs \<noteq> []" using assms(4) by auto
  from find_missing_eq [OF assms(1) ne assms(2)] obtain a m where
    a: "rule_a records (sort (remdups (concat pvs))) = Some a"
    and m: "find_missing_852_fields cap records = Some m"
    and mm: "map_of m = rule_b_map pvs a (length records - 1)" by blast
  have ap: "rule_b_applies pvs i"
    using assms len by (simp add: rule_b_applies_def)
  have mi: "map_of m i = Some (values_of a i @
                              [last_p pvs i + 1 .. first_next_p pvs i - 1])"
  proof -
    have "i < length records - 1" using assms(3) by arith
    with ap show ?thesis by (simp add: mm rule_b_map_def gap_values_def)
  qed
  then have "\<forall>v. last_p pvs i < v \<and> v < first_next_p pvs i
                 \<longrightarrow> v \<in> set (values_of m i)"
    by (auto simp: values_of_def)
  with a m mi show ?thesis by blast
qed

theorem rule_b_assignment_witness:
  "p_values_of [''=852 $p1 =852 $p2'', ''=852 $p5 =852 $p6''] = Some [[1, 2], [5, 6]] \<and>
   gaps_fit sys_maxsize [[1, 2], [5, 6]] \<and>
   0 + 1 < length [''=852 $p1 =852 $p2'', ''=852 $p5 =852 $p6''] \<and>
   [[1, 2], [5, 6]] ! 0 \<noteq> ([] :: int list) \<and>
   [[1, 2], [5, 6]] ! (0 + 1) \<noteq> ([] :: int list) \<and>
   first_next_p [[1, 2], [5, 6]] 0 - last_p [[1, 2], [5, 6]] 0 > 1 \<and>
   (\<exists>m. find_missing_852_fields sys_maxsize [''=852 $p1 =852 $p2'', ''=852 $p5 =852 $p6'']
          = Some m \<and>
        map_of m 0 = Some [3, 4])"
proof -
  let ?R = "[''=852 $p1 =852 $p2'', ''=852 $p5 =852 $p6'']"
  let ?P = "[[1, 2], [5, 6]] :: int list list"
  have h1: "p_values_of ?R = Some ?P" by code_simp
  have h2: "gaps_fit sys_maxsize ?P" by code_simp
  have h3: "0 + 1 < length ?R" by simp
  have h4: "?P ! 0 \<noteq> []" by simp
  have h5: "?P ! (0 + 1) \<noteq> []" by simp
  have h6: "first_next_p ?P 0 - last_p ?P 0 > 1" by code_simp
  have a: "rule_a ?R (sort (remdups (concat ?P))) = Some []" by code_simp
  have v: "[last_p ?P 0 + 1 .. first_next_p ?P 0 - 1] = [3, 4]" by code_simp
  from rule_b_assignment [OF h1 h2 h3 h4 h5 h6] obtain a' m where
    "rule_a ?R (sort (remdups (concat ?P))) = Some a'"
    and m: "find_missing_852_fields sys_maxsize ?R = Some m"
    and mi: "map_of m 0 = Some (values_of a' 0 @ [last_p ?P 0 + 1 .. first_next_p ?P 0 - 1])"
    by blast
  with a have "a' = []" by simp
  with mi v have "map_of m 0 = Some [3, 4]" by (simp add: values_of_def)
  with m h1 h2 h3 h4 h5 h6 show ?thesis by blast
qed

text \<open>
  C10 (the rules exclude each other). Whatever a record is assigned comes from one rule:
  for a record without markers it is the single value Rule A assigned and Rule B does not
  apply to the record; for a record with markers Rule A assigned nothing and the values
  are those of Rule B.
\<close>

theorem rules_exclusive:
  assumes "find_missing_852_fields cap records = Some m" and "map_of m i = Some vs"
  shows "\<exists>pvs a. p_values_of records = Some pvs \<and>
           rule_a records (sort (remdups (concat pvs))) = Some a \<and>
           (if pvs ! i = []
            then map_of a i = Some vs \<and> length vs = 1 \<and> \<not> rule_b_applies pvs i
            else map_of a i = None \<and> rule_b_applies pvs i \<and>
                 vs = [last_p pvs i + 1 .. first_next_p pvs i - 1])"
proof -
  from find_missing_returns [OF assms(1)] obtain pvs where
    pv: "p_values_of records = Some pvs" and fit: "gaps_fit cap pvs" by blast
  have ne: "concat pvs \<noteq> []"
  proof
    assume "concat pvs = []"
    from find_missing_empty [OF pv this, of cap] assms show False by simp
  qed
  from find_missing_eq [OF pv ne fit] obtain a m' where
    a: "rule_a records (sort (remdups (concat pvs))) = Some a"
    and ma: "map_of a = rule_a_map pvs (length records)"
    and m': "find_missing_852_fields cap records = Some m'"
    and mm: "map_of m' = rule_b_map pvs a (length records - 1)" by blast
  have [simp]: "m' = m" using assms(1) m' by simp
  have "if pvs ! i = []
        then map_of a i = Some vs \<and> length vs = 1 \<and> \<not> rule_b_applies pvs i
        else map_of a i = None \<and> rule_b_applies pvs i \<and>
             vs = [last_p pvs i + 1 .. first_next_p pvs i - 1]"
    using assms(2) mm
    by (auto simp: ma rule_b_map_def rule_a_map_def rule_b_applies_def gap_values_def
          values_of_def split: if_splits)
  with pv a show ?thesis by blast
qed

theorem rules_exclusive_witness:
  "find_missing_852_fields sys_maxsize [''=852 $p4'', ''x''] = Some [(1, [5])] \<and>
   map_of [(1::nat, [5::int])] 1 = Some [5] \<and>
   (\<exists>pvs a. p_values_of [''=852 $p4'', ''x''] = Some pvs \<and>
        rule_a [''=852 $p4'', ''x''] (sort (remdups (concat pvs))) = Some a \<and>
        map_of a 1 = Some [5] \<and> length [5::int] = 1 \<and> \<not> rule_b_applies pvs 1)"
proof -
  let ?R = "[''=852 $p4'', ''x'']"
  have h1: "find_missing_852_fields sys_maxsize ?R = Some [(1, [5])]" by code_simp
  have h2: "map_of [(1::nat, [5::int])] 1 = Some [5]" by simp
  have e: "p_values_of ?R = Some [[4], []]" by code_simp
  from rules_exclusive [OF h1 h2] obtain pvs a where
    pv: "p_values_of ?R = Some pvs"
    and a: "rule_a ?R (sort (remdups (concat pvs))) = Some a"
    and c: "if pvs ! 1 = []
            then map_of a 1 = Some [5] \<and> length [5::int] = 1 \<and> \<not> rule_b_applies pvs 1
            else map_of a 1 = None \<and> rule_b_applies pvs 1 \<and>
                 [5] = [last_p pvs 1 + 1 .. first_next_p pvs 1 - 1]" by blast
  from pv e have "pvs = [[4], []]" by simp
  then have "pvs ! 1 = []" by simp
  with c have "map_of a 1 = Some [5] \<and> length [5::int] = 1 \<and> \<not> rule_b_applies pvs 1"
    by simp
  with pv a h1 h2 show ?thesis by blast
qed

section \<open>Field insertion\<close>

lemma after_last_subject_Suc:
  "after_last_subject lines (Suc a) =
     (if prefix ''=653'' (lines ! a) then a + 1 else after_last_subject lines a)"
  by (simp add: after_last_subject_def subject_lines_def)

lemma scan_lines_drop:
  assumes "a \<le> length lines"
    and "\<forall>i. 0 < i \<and> i < a \<longrightarrow> \<not> prefix ''=LDR'' (lines ! i)"
  shows "scan_lines a (drop a lines) (after_last_subject lines a) = insertion_point lines"
  using assms
proof (induction "length lines - a" arbitrary: a)
  case 0
  then have a: "a = length lines" by simp
  have "embedded_ldr lines = []"
    using 0(3) by (auto simp: embedded_ldr_def filter_empty_conv a)
  then show ?case by (simp add: a insertion_point_def)
next
  case (Suc d)
  then have a: "a < length lines" by simp
  have dr: "drop a lines = lines ! a # drop (Suc a) lines"
    using a by (simp add: Cons_nth_drop_Suc)
  show ?case
  proof (cases "prefix ''=LDR'' (lines ! a) \<and> 0 < a")
    case True
    then have n653: "\<not> prefix ''=653'' (lines ! a)" by (auto simp: prefix_def)
    have "[1..<a + (length lines - a)] = [1..<a] @ [a..<a + (length lines - a)]"
      using True by (intro upt_add_eq_append) simp
    then have "[1..<length lines] = [1..<a] @ a # [Suc a..<length lines]"
      using a by (simp add: upt_conv_Cons)
    moreover have "filter (\<lambda>i. prefix ''=LDR'' (lines ! i)) [1..<a] = []"
      using Suc.prems(2) by (auto simp: filter_empty_conv)
    ultimately have "embedded_ldr lines
        = a # filter (\<lambda>i. prefix ''=LDR'' (lines ! i)) [Suc a..<length lines]"
      using True by (simp add: embedded_ldr_def)
    then show ?thesis using True n653 by (simp add: dr insertion_point_def)
  next
    case False
    have d: "d = length lines - Suc a" using Suc(2) by simp
    have le: "Suc a \<le> length lines" using a by simp
    have inv: "\<forall>i. 0 < i \<and> i < Suc a \<longrightarrow> \<not> prefix ''=LDR'' (lines ! i)"
      using Suc.prems(2) False by (auto simp: less_Suc_eq)
    have ih: "scan_lines (Suc a) (drop (Suc a) lines) (after_last_subject lines (Suc a))
               = insertion_point lines"
      by (rule Suc(1) [OF d le inv])
    show ?thesis using False ih
      by (auto simp: dr after_last_subject_Suc)
  qed
qed

lemma insert_index_eq: "insert_index lines = insertion_point lines"
  using scan_lines_drop [of 0 lines]
  by (simp add: insert_index_def after_last_subject_def subject_lines_def)

lemma insertion_point_le: "insertion_point lines \<le> length lines"
proof (cases "embedded_ldr lines")
  case Nil
  show ?thesis
  proof (cases "subject_lines lines (length lines) = []")
    case True
    with Nil show ?thesis by (simp add: insertion_point_def after_last_subject_def)
  next
    case False
    then have "last (subject_lines lines (length lines)) \<in> set (subject_lines lines (length lines))"
      by (rule last_in_set)
    then have "last (subject_lines lines (length lines)) < length lines"
      by (simp add: subject_lines_def)
    with Nil False show ?thesis by (simp add: insertion_point_def after_last_subject_def)
  qed
next
  case (Cons k ks)
  then have "k \<in> set (embedded_ldr lines)" by simp
  then have "k < length lines" by (simp add: embedded_ldr_def)
  with Cons show ?thesis by (simp add: insertion_point_def)
qed

text \<open>
  C7 (insertion placement). With a non-empty list of missing values and a template, the
  call raises exactly when one of the values cannot be printed; otherwise the new record
  is the lines before the insertion point, one synthesized field per missing value in the
  given order, and the lines from the insertion point on, joined by newlines. The
  insertion point is the position of the first line after the first that begins with
  \<open>=LDR\<close> if there is one (the scan stops there); otherwise the position after the last
  line that begins with \<open>=653\<close>; otherwise the end of the record.
\<close>

theorem insertion_placement:
  assumes "missing_values \<noteq> []" and "t \<noteq> []"
  shows "add_missing_852_fields record missing_values (Some t) =
           map_option
             (\<lambda>fields. join [LF]
                (take (insertion_point (splitlines record)) (splitlines record) @ fields @
                 drop (insertion_point (splitlines record)) (splitlines record)))
             (those (map (new_852 t) missing_values)) \<and>
         insertion_point (splitlines record) \<le> length (splitlines record)"
  using assms
  by (cases "those (map (new_852 t) missing_values)")
     (simp_all add: add_missing_852_fields_def insert_index_eq Let_def insertion_point_le)

theorem insertion_placement_witness:
  "[7::int] \<noteq> [] \<and> ''=852 $p1'' \<noteq> [] \<and>
   add_missing_852_fields (''=LDR a'' @ [LF] @ ''=653 s'' @ [LF] @ ''=900 u'') [7]
       (Some ''=852 $p1'')
     = Some (''=LDR a'' @ [LF] @ ''=653 s'' @ [LF] @ ''=852 $p7'' @ [LF] @ ''=900 u'')"
proof -
  let ?r = "''=LDR a'' @ [LF] @ ''=653 s'' @ [LF] @ ''=900 u''"
  have h1: "[7::int] \<noteq> []" by simp
  have h2: "''=852 $p1'' \<noteq> []" by simp
  have v: "map_option
             (\<lambda>fields. join [LF]
                (take (insertion_point (splitlines ?r)) (splitlines ?r) @ fields @
                 drop (insertion_point (splitlines ?r)) (splitlines ?r)))
             (those (map (new_852 ''=852 $p1'') [7]))
           = Some (''=LDR a'' @ [LF] @ ''=653 s'' @ [LF] @ ''=852 $p7'' @ [LF] @ ''=900 u'')"
    by code_simp
  have e: "add_missing_852_fields ?r [7] (Some ''=852 $p1'') =
           map_option
             (\<lambda>fields. join [LF]
                (take (insertion_point (splitlines ?r)) (splitlines ?r) @ fields @
                 drop (insertion_point (splitlines ?r)) (splitlines ?r)))
             (those (map (new_852 ''=852 $p1'') [7]))"
    using insertion_placement [OF h1 h2, of ?r] by (rule conjunct1)
  show ?thesis
    by (rule conjI [OF h1 conjI [OF h2 trans [OF e v]]])
qed

section \<open>Marker extraction\<close>

lemma matches_Lit:
  "matches (Lit l # as) s =
     (if prefix l s then map (\<lambda>(gs, r). (l # gs, r)) (matches as (drop (length l) s)) else [])"
  by (auto simp: prefix_def)

lemma match_at_Lit:
  "match_at (Lit l # as) s = Some (gs, r) \<Longrightarrow> prefix l s \<and> (\<exists>gs'. gs = l # gs')"
  by (auto simp: match_at_def matches_Lit simp del: matches.simps split: list.splits if_splits)

lemma re_search_Lit:
  "re_search (Lit l # as) s = Some (gs, r) \<Longrightarrow> \<exists>gs'. gs = l # gs'"
  by (induction s) (auto split: option.splits dest: match_at_Lit)

lemma template_nonempty: "get_852_field_template records = Some t \<Longrightarrow> t \<noteq> []"
proof (induction records)
  case Nil
  then show ?case by simp
next
  case (Cons r records)
  show ?case
  proof (cases "re_search template_pat r")
    case None
    with Cons show ?thesis by simp
  next
    case (Some a)
    obtain gs rest where a: "a = (gs, rest)" by (cases a)
    from Some a have "\<exists>gs'. gs = ''=852'' # gs'"
      unfolding template_pat_def by (auto dest: re_search_Lit)
    with Cons.prems Some a show ?thesis by auto
  qed
qed



lemma countdown_empty: "k < lo \<Longrightarrow> countdown lo k = []"
  by (cases k) auto


















section \<open>Counting the target field\<close>

lemma split_str_ne: "split_str sep s \<noteq> []"
  by (induction sep s rule: split_str.induct) (auto split: list.splits)

lemma record_list_eq:
  "record_list x = Some (split_records (hd (split_str ''=LDR'' (strip x)))
                                       (tl (split_str ''=LDR'' (strip x))))"
  using split_str_ne [of "''=LDR''" "strip x"]
  by (simp add: record_list_def py_index_def hd_conv_nth Let_def)

lemma count_852_occ: "count_852 s = int (occ_852 s)"
  by (simp add: count_852_def occ_852_def)

lemma match_at_field:
  "match_at field_852_pat s =
     (if prefix ''=852'' s then Some ([''=852''], drop 4 s) else None)"
  by (simp add: match_at_def field_852_pat_def matches_Lit eval_nat_numeral
        del: matches.simps(2))

lemma occ_Nil [simp]: "occ_852 [] = 0"
  by (simp add: occ_852_def match_at_field)

lemma occ_step:
  "occ_852 (c # cs) =
     (if prefix ''=852'' (c # cs) then Suc (occ_852 (drop 3 cs)) else occ_852 cs)"
  by (simp add: occ_852_def match_at_field)

lemma occ_Cons:
  "occ_852 (c # cs) = (if prefix ''=852'' (c # cs) then 1 else 0) + occ_852 cs"
proof (cases "prefix ''=852'' (c # cs)")
  case True
  then obtain r where cs: "cs = ''852'' @ r" by (auto simp: prefix_def)
  have "occ_852 cs = occ_852 r" unfolding cs by (simp add: occ_step)
  with True cs show ?thesis by (simp add: occ_step)
next
  case False
  then show ?thesis by (auto simp: occ_step)
qed

lemma occ_append_ge: "occ_852 a + occ_852 b \<le> occ_852 (a @ b)"
  by (induction a) (auto simp: occ_Cons intro: prefix_prefix)

lemma prefix_cut:
  assumes "c \<notin> set (tl p)" and "u \<noteq> []" and "prefix p (u @ c # b)"
  shows "prefix p u"
proof -
  from assms(3) consider "prefix p u" | us where "p = u @ us" "prefix us (c # b)"
    by (auto simp: prefix_append)
  then show ?thesis
  proof cases
    case 1
    then show ?thesis .
  next
    case 2
    show ?thesis
    proof (cases us)
      case Nil
      with 2 show ?thesis by simp
    next
      case (Cons x xs)
      with 2 have "x = c" by simp
      with 2 Cons assms(2) have "c \<in> set (tl p)" by (cases u) auto
      with assms(1) show ?thesis by simp
    qed
  qed
qed

lemma prefix_852_cut:
  assumes "c \<notin> set ''852''"
  shows "prefix ''=852'' (x # a @ c # b) \<longleftrightarrow> prefix ''=852'' (x # a)"
proof
  assume "prefix ''=852'' (x # a @ c # b)"
  then have "prefix ''=852'' ((x # a) @ c # b)" by simp
  then show "prefix ''=852'' (x # a)"
    by (rule prefix_cut [rotated 2]) (use assms in simp_all)
next
  assume "prefix ''=852'' (x # a)"
  then have "prefix ''=852'' ((x # a) @ c # b)" by (rule prefix_prefix)
  then show "prefix ''=852'' (x # a @ c # b)" by simp
qed

lemma occ_sep:
  assumes "c \<notin> set ''=852''"
  shows "occ_852 (a @ c # b) = occ_852 a + occ_852 b"
proof (induction a)
  case Nil
  show ?case using assms by (auto simp: occ_Cons)
next
  case (Cons x a)
  have "c \<notin> set ''852''" using assms by simp
  from prefix_852_cut [OF this] Cons show ?case
    by (simp add: occ_Cons del: Cons_prefix_Cons)
qed

lemma occ_zero: "\<forall>c \<in> set t. c \<notin> set ''=852'' \<Longrightarrow> occ_852 t = 0"
  by (induction t) (auto simp: occ_Cons)

lemma occ_append_other:
  assumes "\<forall>c \<in> set t. c \<notin> set ''=852''"
  shows "occ_852 (a @ t) = occ_852 a"
proof (cases t)
  case Nil
  then show ?thesis by simp
next
  case (Cons c t')
  with assms have c: "c \<notin> set ''=852''" and t': "\<forall>c \<in> set t'. c \<notin> set ''=852''" by auto
  show ?thesis unfolding Cons by (simp add: occ_sep [OF c] occ_zero [OF t'])
qed

lemma occ_dropWhile:
  "(\<And>c. P c \<Longrightarrow> c \<noteq> CHR ''='') \<Longrightarrow> occ_852 (dropWhile P s) = occ_852 s"
  by (induction s) (auto simp: occ_Cons)

lemma space_not_852: "is_space c \<Longrightarrow> c \<notin> set ''=852''"
  by (auto simp: is_space_def)

lemma linebreak_not_852: "is_linebreak c \<Longrightarrow> c \<notin> set ''=852''"
  by (auto simp: is_linebreak_def)

lemma occ_strip: "occ_852 (strip s) = occ_852 s"
proof -
  let ?d = "dropWhile is_space s"
  have "takeWhile is_space (rev ?d) @ dropWhile is_space (rev ?d) = rev ?d"
    by (rule takeWhile_dropWhile_id)
  then have "rev (takeWhile is_space (rev ?d) @ dropWhile is_space (rev ?d)) = rev (rev ?d)"
    by (rule arg_cong)
  then have "rev (dropWhile is_space (rev ?d)) @ rev (takeWhile is_space (rev ?d)) = ?d"
    by (simp only: rev_append rev_rev_ident)
  then have d: "?d = strip s @ rev (takeWhile is_space (rev ?d))"
    by (simp only: strip_def)
  have "\<forall>c \<in> set (rev (takeWhile is_space (rev ?d))). c \<notin> set ''=852''"
    using space_not_852 by (auto dest: set_takeWhileD)
  from occ_append_other [OF this, of "strip s"] d have "occ_852 ?d = occ_852 (strip s)"
    by simp
  moreover have "occ_852 ?d = occ_852 s"
    by (rule occ_dropWhile) (auto simp: is_space_def)
  ultimately show ?thesis by simp
qed

lemma occ_blank: "strip s = [] \<Longrightarrow> occ_852 s = 0"
  using occ_strip [of s] by simp

lemma hd_split_str:
  "sep \<noteq> [] \<Longrightarrow>
   \<exists>rest. s = hd (split_str sep s) @ rest \<and> (rest = [] \<or> prefix sep rest)"
proof (induction sep s rule: split_str.induct)
  case (1 sep)
  show ?case by simp
next
  case (2 sep c cs)
  show ?case
  proof (cases "prefix sep (c # cs)")
    case True
    with 2(3) show ?thesis by simp
  next
    case False
    with 2(2,3) obtain rest where r: "cs = hd (split_str sep cs) @ rest"
      and r': "rest = [] \<or> prefix sep rest" by auto
    obtain p ps where ps: "split_str sep cs = p # ps"
      using split_str_ne [of sep cs] by (cases "split_str sep cs") auto
    have "c # cs = hd (split_str sep (c # cs)) @ rest"
      using False r ps by simp
    with r' show ?thesis by blast
  qed
qed

lemma occ_LDR: "occ_852 (''=LDR'' @ r) = occ_852 r"
  by (simp add: occ_Cons)

lemma occ_split_str: "sum_list (map occ_852 (split_str ''=LDR'' s)) = occ_852 s"
proof (induction sep \<equiv> "''=LDR''" s rule: split_str.induct)
  case 1
  show ?case by simp
next
  case (2 c cs)
  show ?case
  proof (cases "prefix ''=LDR'' (c # cs)")
    case True
    then obtain r where r: "c # cs = ''=LDR'' @ r" by (auto simp: prefix_def)
    then have d: "drop (length ''=LDR'') (c # cs) = r" by simp
    have "sum_list (map occ_852 (split_str ''=LDR'' r)) = occ_852 r"
      using 2(1) True d by simp
    moreover have "occ_852 (c # cs) = occ_852 r" unfolding r by (rule occ_LDR)
    moreover have "split_str ''=LDR'' (c # cs) = [] # split_str ''=LDR'' r"
      using True d by simp
    ultimately show ?thesis by simp
  next
    case False
    obtain p ps where ps: "split_str ''=LDR'' cs = p # ps"
      using split_str_ne [of "''=LDR''" cs] by (cases "split_str ''=LDR'' cs") auto
    have ih: "occ_852 p + sum_list (map occ_852 ps) = occ_852 cs"
      using 2(2) False ps by simp
    from hd_split_str [of "''=LDR''" cs] ps obtain rest where
      cs: "cs = p @ rest" and rest: "rest = [] \<or> prefix ''=LDR'' rest" by auto
    have "prefix ''=852'' (c # cs) \<longleftrightarrow> prefix ''=852'' (c # p)"
    proof (cases rest)
      case Nil
      with cs show ?thesis by simp
    next
      case (Cons x xs)
      with rest have "x = CHR ''=''" by simp
      then have "cs = p @ CHR ''='' # xs" using cs Cons by simp
      moreover have "CHR ''='' \<notin> set ''852''" by simp
      ultimately show ?thesis using prefix_852_cut [of "CHR ''=''" c p xs] by simp
    qed
    then have "occ_852 (c # cs) = occ_852 (c # p) + sum_list (map occ_852 ps)"
      using ih by (simp add: occ_Cons del: Cons_prefix_Cons)
    moreover have "split_str ''=LDR'' (c # cs) = (c # p) # ps"
      using False ps by simp
    ultimately show ?thesis by simp
  qed
qed

lemma occ_split_records:
  "sum_list (map occ_852 (split_records part0 parts1))
     = occ_852 part0 + sum_list (map occ_852 parts1)"
proof -
  have a: "sum_list (map occ_852 (if strip part0 \<noteq> [] then [strip part0] else []))
             = occ_852 part0"
    by (simp add: occ_strip occ_blank)
  have b: "sum_list (map occ_852 (map (\<lambda>part. ''=LDR'' @ part)
               (filter (\<lambda>part. strip part \<noteq> []) ps))) = sum_list (map occ_852 ps)" for ps
    by (induction ps) (simp_all add: occ_blank occ_LDR del: append.simps)
  show ?thesis unfolding split_records_def map_append sum_list_append a b ..
qed

lemma occ_record_list:
  "record_list x = Some records \<Longrightarrow> sum_list (map occ_852 records) = occ_852 x"
proof -
  assume r: "record_list x = Some records"
  let ?parts = "split_str ''=LDR'' (strip x)"
  have ne: "?parts \<noteq> []" by (rule split_str_ne)
  have "records = split_records (hd ?parts) (tl ?parts)"
    using r by (simp add: record_list_eq)
  then have "sum_list (map occ_852 records)
      = occ_852 (hd ?parts) + sum_list (map occ_852 (tl ?parts))"
    by (simp add: occ_split_records)
  also have "\<dots> = sum_list (map occ_852 ?parts)"
    using ne by (cases ?parts) simp_all
  also have "\<dots> = occ_852 x" by (simp add: occ_split_str occ_strip)
  finally show ?thesis .
qed

lemma re_search_occ:
  "re_search (Lit ''=852'' # as) s = Some m \<Longrightarrow> 0 < occ_852 s"
proof (induction s)
  case Nil
  then show ?case by (cases m) (auto dest: match_at_Lit)
next
  case (Cons c cs)
  show ?case
  proof (cases "match_at (Lit ''=852'' # as) (c # cs)")
    case None
    with Cons have "0 < occ_852 cs" by simp
    then show ?thesis by (simp add: occ_Cons)
  next
    case (Some a)
    then have "prefix ''=852'' (c # cs)" by (cases a) (auto dest: match_at_Lit)
    then show ?thesis by (simp add: occ_Cons del: Cons_prefix_Cons)
  qed
qed

lemma no_field_no_template:
  "\<forall>r \<in> set records. occ_852 r = 0 \<Longrightarrow> get_852_field_template records = None"
proof (induction records)
  case Nil
  show ?case by simp
next
  case (Cons r records)
  have "re_search template_pat r = None"
  proof (cases "re_search template_pat r")
    case (Some m)
    then have "0 < occ_852 r" unfolding template_pat_def by (rule re_search_occ)
    with Cons.prems show ?thesis by simp
  qed simp
  with Cons show ?case by simp
qed

lemma occ_splitlines: "sum_list (map occ_852 (splitlines s)) = occ_852 s"
proof (induction s rule: splitlines.induct)
  case 1
  show ?case by simp
next
  case (2 c cs)
  let ?s = "c # cs"
  let ?line = "takeWhile (\<lambda>x. \<not> is_linebreak x) ?s"
  let ?rest = "dropWhile (\<lambda>x. \<not> is_linebreak x) ?s"
  have s: "?line @ ?rest = ?s" by (rule takeWhile_dropWhile_id)
  show ?case
  proof (cases ?rest)
    case Nil
    have "?line = ?s" using s unfolding Nil by (simp only: append_Nil2)
    moreover have "splitlines ?s = [?line]"
      by (simp only: splitlines.simps Let_def Nil list.case)
    ultimately show ?thesis by (simp only: list.map sum_list.Cons sum_list.Nil add_0_right)
  next
    case (Cons b r)
    have "hd ?rest = b" unfolding Cons by simp
    moreover have "?rest \<noteq> []" unfolding Cons by simp
    ultimately have "is_linebreak b"
      using hd_dropWhile [of "\<lambda>x. \<not> is_linebreak x" ?s] by blast
    then have b: "b \<notin> set ''=852''" by (rule linebreak_not_852)
    let ?r' = "if b = CR \<and> r \<noteq> [] \<and> hd r = LF then tl r else r"
    have ih: "sum_list (map occ_852 (splitlines ?r')) = occ_852 ?r'"
      using 2 [OF refl refl Cons] .
    have r': "occ_852 ?r' = occ_852 r"
      by (cases r) (auto simp: occ_Cons)
    have "?line @ b # r = ?s" using s unfolding Cons .
    then have "occ_852 ?s = occ_852 (?line @ b # r)" by (rule arg_cong [OF sym])
    also have "\<dots> = occ_852 ?line + occ_852 r" by (rule occ_sep [OF b])
    finally have o: "occ_852 ?s = occ_852 ?line + occ_852 r" .
    have "splitlines ?s = ?line # splitlines ?r'"
      by (simp only: splitlines.simps Let_def Cons list.case)
    then have "sum_list (map occ_852 (splitlines ?s))
        = occ_852 ?line + sum_list (map occ_852 (splitlines ?r'))"
      by (simp only: list.map sum_list.Cons)
    with ih r' o show ?thesis by (simp only:)
  qed
qed

lemma occ_join: "sum_list (map occ_852 xs) \<le> occ_852 (join sep xs)"
proof (induction sep xs rule: join.induct)
  case (3 sep x y ys)
  have "occ_852 x + occ_852 (join sep (y # ys)) \<le> occ_852 x + occ_852 (sep @ join sep (y # ys))"
    using occ_append_ge [of sep "join sep (y # ys)"] by simp
  also have "\<dots> \<le> occ_852 (x @ sep @ join sep (y # ys))" by (rule occ_append_ge)
  finally show ?case using 3 by simp
qed simp_all

lemma occ_add_missing:
  assumes "add_missing_852_fields record vs t = Some record'"
  shows "occ_852 record \<le> occ_852 record'"
proof (cases "\<exists>t'. t = Some t' \<and> vs \<noteq> [] \<and> t' \<noteq> []")
  case False
  then show ?thesis using assms
    by (auto simp: add_missing_852_fields_def split: option.splits if_splits)
next
  case True
  then obtain t' where t: "t = Some t'" "vs \<noteq> []" "t' \<noteq> []" by blast
  let ?lines = "splitlines record"
  let ?k = "insert_index ?lines"
  from assms t obtain fields where
    r': "record' = join [LF] (take ?k ?lines @ fields @ drop ?k ?lines)"
    by (auto simp: add_missing_852_fields_def Let_def split: bind_splits)
  let ?new = "take ?k ?lines @ fields @ drop ?k ?lines"
  have td: "sum_list (map occ_852 (take ?k ?lines)) + sum_list (map occ_852 (drop ?k ?lines))
              = sum_list (map occ_852 ?lines)"
    by (simp only: sum_list_append [symmetric] map_append [symmetric] append_take_drop_id)
  have new: "sum_list (map occ_852 ?new) = sum_list (map occ_852 (take ?k ?lines)) +
      (sum_list (map occ_852 fields) + sum_list (map occ_852 (drop ?k ?lines)))"
    by (simp only: sum_list_append map_append)
  have "occ_852 record = sum_list (map occ_852 ?lines)"
    by (simp only: occ_splitlines)
  also have "\<dots> \<le> sum_list (map occ_852 ?new)"
    using td new by linarith
  also have "\<dots> \<le> occ_852 (join [LF] ?new)" by (rule occ_join)
  finally show ?thesis unfolding r' .
qed

lemma occ_add_loop:
  "for_loop ks (add_body m t) rs = Some rs' \<Longrightarrow>
   sum_list (map occ_852 rs) \<le> sum_list (map occ_852 rs')"
proof (induction ks arbitrary: rs)
  case Nil
  then show ?case by simp
next
  case (Cons k ks)
  from Cons.prems obtain rs1 where b: "add_body m t k rs = Some rs1"
    and l: "for_loop ks (add_body m t) rs1 = Some rs'"
    by (auto split: option.splits)
  from b obtain vs r' where k: "k < length rs"
    and a: "add_missing_852_fields (rs ! k) vs t = Some r'"
    and rs1: "rs1 = rs[k := r']"
    by (auto simp: add_body_def py_index_def py_store_def split: if_splits bind_splits)
  have "map occ_852 rs1 = (map occ_852 rs)[k := occ_852 r']"
    by (simp add: rs1 map_update)
  then have "sum_list (map occ_852 rs1) =
      sum_list (map occ_852 rs) + occ_852 r' - occ_852 (rs ! k)"
    using k by (simp add: sum_list_update)
  moreover have "occ_852 (rs ! k) \<le> sum_list (map occ_852 rs)"
    by (rule member_le_sum_list) (use k in simp_all)
  ultimately have "sum_list (map occ_852 rs) \<le> sum_list (map occ_852 rs1)"
    using occ_add_missing [OF a] by linarith
  with Cons.IH [OF l] show ?case by simp
qed

section \<open>The whole pass\<close>

lemma process_no_template:
  assumes "record_list x = Some records" and "get_852_field_template records = None"
  shows "process_marc_records cap x = Some x"
  using assms by (simp add: process_marc_records_def)

lemma process_no_records:
  assumes "record_list x = Some []"
  shows "process_marc_records cap x = Some x"
  using assms by (simp add: process_marc_records_def)

lemma process_with_template:
  assumes "record_list x = Some records" and "get_852_field_template records = Some t"
  shows "process_marc_records cap x =
           Option.bind (find_missing_852_fields cap records) (\<lambda>m.
             map_option (join [LF, LF])
               (for_loop (sort (map fst m)) (add_body m (Some t)) records))"
proof -
  have "records \<noteq> []" using assms(2) by auto
  moreover have "t \<noteq> []" using assms(2) by (rule template_nonempty)
  ultimately show ?thesis
    using assms
    by (cases "find_missing_852_fields cap records")
       (auto simp: process_marc_records_def map_option_case split: option.splits)
qed

lemma process_result:
  assumes "record_list x = Some records" and "process_marc_records cap x = Some y"
  shows "y = x \<or>
         (\<exists>t m rs'. get_852_field_template records = Some t \<and>
            find_missing_852_fields cap records = Some m \<and>
            for_loop (sort (map fst m)) (add_body m (Some t)) records = Some rs' \<and>
            y = join [LF, LF] rs')"
proof (cases "get_852_field_template records")
  case None
  with assms show ?thesis by (simp add: process_no_template)
next
  case (Some t)
  with assms show ?thesis
    by (auto simp: process_with_template split: bind_splits)
qed

text \<open>
  C6 (no template). An input without any occurrence of \<open>=852\<close> is returned exactly as it
  is, and the statistics computed from the input and that output show zero added fields.
\<close>

theorem no_template_unchanged:
  assumes "count_852 x = 0"
  shows "process_marc_records cap x = Some x \<and>
         added_fields (get_processing_stats x x) = 0"
proof -
  obtain records where r: "record_list x = Some records"
    using record_list_eq by blast
  have "sum_list (map occ_852 records) = 0"
    using assms occ_record_list [OF r] by (simp add: count_852_occ)
  then have "\<forall>r \<in> set records. occ_852 r = 0" by simp
  then have "get_852_field_template records = None" by (rule no_field_no_template)
  with r have "process_marc_records cap x = Some x" by (rule process_no_template)
  then show ?thesis by (simp add: get_processing_stats_def)
qed

theorem no_template_unchanged_witness:
  "count_852 ''=LDR a=LDR b'' = 0 \<and>
   process_marc_records sys_maxsize ''=LDR a=LDR b'' = Some ''=LDR a=LDR b'' \<and>
   added_fields (get_processing_stats ''=LDR a=LDR b'' ''=LDR a=LDR b'') = 0"
proof -
  have h: "count_852 ''=LDR a=LDR b'' = 0" by code_simp
  from no_template_unchanged [OF h, of sys_maxsize] h show ?thesis by blast
qed

text \<open>
  C5 (no markers), as the code has it. When some record holds a template but no record
  yields a marker, gap detection assigns nothing and the output is the records of the
  input, each unchanged, joined by blank lines.
\<close>

theorem no_markers_no_change:
  assumes "record_list x = Some records" and "get_852_field_template records = Some t"
    and "collect_p_values records = Some []"
  shows "find_missing_852_fields cap records = Some [] \<and>
         process_marc_records cap x = Some (join [LF, LF] records)"
proof -
  have m: "find_missing_852_fields cap records = Some []"
    using assms(3) by (simp add: find_missing_852_fields_def)
  then show ?thesis
    by (simp add: process_with_template [OF assms(1,2)])
qed

theorem no_markers_no_change_witness:
  "record_list '' =852 x'' = Some [''=852 x''] \<and>
   get_852_field_template [''=852 x''] = Some ''=852 x'' \<and>
   collect_p_values [''=852 x''] = Some [] \<and>
   find_missing_852_fields sys_maxsize [''=852 x''] = Some [] \<and>
   process_marc_records sys_maxsize '' =852 x'' = Some ''=852 x''"
proof -
  have h1: "record_list '' =852 x'' = Some [''=852 x'']" by code_simp
  have h2: "get_852_field_template [''=852 x''] = Some ''=852 x''" by code_simp
  have h3: "collect_p_values [''=852 x''] = Some []" by code_simp
  have j: "join [LF, LF] [''=852 x''] = ''=852 x''" by simp
  from no_markers_no_change [OF h1 h2 h3, of sys_maxsize] have
    "find_missing_852_fields sys_maxsize [''=852 x''] = Some []"
    and "process_marc_records sys_maxsize '' =852 x'' = Some ''=852 x''"
    unfolding j by blast+
  with h1 h2 h3 show ?thesis by blast
qed

text \<open>
  The output need not equal the input text: two records that follow each other directly
  come back separated by a blank line.
\<close>

theorem no_markers_output_differs:
  "record_list ''=LDR a=852 b=LDR c'' = Some [''=LDR a=852 b'', ''=LDR c''] \<and>
   get_852_field_template [''=LDR a=852 b'', ''=LDR c''] = Some ''=852 b'' \<and>
   collect_p_values [''=LDR a=852 b'', ''=LDR c''] = Some [] \<and>
   process_marc_records sys_maxsize ''=LDR a=852 b=LDR c''
     = Some (''=LDR a=852 b'' @ [LF, LF] @ ''=LDR c'') \<and>
   ''=LDR a=852 b'' @ [LF, LF] @ ''=LDR c'' \<noteq> ''=LDR a=852 b=LDR c''"
proof -
  have h1: "record_list ''=LDR a=852 b=LDR c'' = Some [''=LDR a=852 b'', ''=LDR c'']"
    by code_simp
  have h2: "get_852_field_template [''=LDR a=852 b'', ''=LDR c''] = Some ''=852 b''"
    by code_simp
  have h3: "collect_p_values [''=LDR a=852 b'', ''=LDR c''] = Some []" by code_simp
  have h4: "process_marc_records sys_maxsize ''=LDR a=852 b=LDR c''
     = Some (''=LDR a=852 b'' @ [LF, LF] @ ''=LDR c'')" by code_simp
  have h5: "''=LDR a=852 b'' @ [LF, LF] @ ''=LDR c'' \<noteq> ''=LDR a=852 b=LDR c''" by simp
  show ?thesis by (intro conjI) (rule h1, rule h2, rule h3, rule h4, rule h5)
qed

text \<open>
  C8 (monotone field count). Whenever the pass returns, its output has at least as many
  occurrences of \<open>=852\<close> as the input has, so the \<open>added_fields\<close> statistic is never
  negative.
\<close>

theorem field_count_monotone:
  assumes "process_marc_records cap x = Some y"
  shows "count_852 x \<le> count_852 y \<and> 0 \<le> added_fields (get_processing_stats x y)"
proof -
  obtain records where r: "record_list x = Some records"
    using record_list_eq by blast
  from process_result [OF r assms] consider "y = x"
    | t m rs' where "for_loop (sort (map fst m)) (add_body m (Some t)) records = Some rs'"
        "y = join [LF, LF] rs'"
    by blast
  then show ?thesis
  proof cases
    case 1
    then show ?thesis by (simp add: get_processing_stats_def)
  next
    case 2
    have "occ_852 x = sum_list (map occ_852 records)"
      using occ_record_list [OF r] by simp
    also have "\<dots> \<le> sum_list (map occ_852 rs')" using 2(1) by (rule occ_add_loop)
    also have "\<dots> \<le> occ_852 (join [LF, LF] rs')" by (rule occ_join)
    finally have "count_852 x \<le> count_852 y"
      unfolding 2(2) by (simp add: count_852_occ)
    then show ?thesis by (simp add: get_processing_stats_def)
  qed
qed

theorem field_count_monotone_witness:
  "process_marc_records sys_maxsize ''=LDR =852 $p4=LDR x''
     = Some (''=LDR =852 $p4'' @ [LF, LF] @ ''=LDR x'' @ [LF] @ ''=852 $p5'') \<and>
   count_852 ''=LDR =852 $p4=LDR x''
     \<le> count_852 (''=LDR =852 $p4'' @ [LF, LF] @ ''=LDR x'' @ [LF] @ ''=852 $p5'') \<and>
   0 \<le> added_fields (get_processing_stats ''=LDR =852 $p4=LDR x''
           (''=LDR =852 $p4'' @ [LF, LF] @ ''=LDR x'' @ [LF] @ ''=852 $p5''))"
proof -
  have h: "process_marc_records sys_maxsize ''=LDR =852 $p4=LDR x''
     = Some (''=LDR =852 $p4'' @ [LF, LF] @ ''=LDR x'' @ [LF] @ ''=852 $p5'')"
    by code_simp
  from field_count_monotone [OF h] h show ?thesis by blast
qed

section \<open>Inputs within the limits of the runtime\<close>

















section \<open>A second pass\<close>

lemma last_dropWhile: "dropWhile P xs \<noteq> [] \<Longrightarrow> last (dropWhile P xs) = last xs"
  by (induction xs) (auto split: if_splits)

lemma strip_ends:
  assumes "strip s \<noteq> []"
  shows "\<not> is_space (hd (strip s)) \<and> \<not> is_space (last (strip s))"
proof -
  let ?d = "dropWhile is_space s"
  let ?e = "dropWhile is_space (rev ?d)"
  have e: "?e \<noteq> []" using assms by (simp add: strip_def)
  have d: "?d \<noteq> []"
  proof
    assume "?d = []"
    then have "?e = dropWhile is_space (rev [])" by (rule arg_cong)
    with e show False by simp
  qed
  have "last (strip s) = hd ?e" using e by (simp add: strip_def last_rev)
  moreover have "\<not> is_space (hd ?e)" using e hd_dropWhile [of is_space "rev ?d"] by blast
  moreover have "hd (strip s) = last ?e" using e by (simp add: strip_def hd_rev)
  moreover have "last ?e = last (rev ?d)" using e by (rule last_dropWhile)
  moreover have "last (rev ?d) = hd ?d" using d by (simp add: last_rev)
  moreover have "\<not> is_space (hd ?d)" using d hd_dropWhile [of is_space s] by blast
  ultimately show ?thesis by simp
qed

lemma strip_self:
  assumes "s \<noteq> []" and "\<not> is_space (hd s)" and "\<not> is_space (last s)"
  shows "strip s = s"
proof -
  have "dropWhile is_space s = s" using assms(1,2) by (cases s) auto
  moreover have "dropWhile is_space (rev s) = rev s"
    using assms(1,3) by (cases "rev s") (auto simp: hd_rev [symmetric])
  ultimately show ?thesis by (simp add: strip_def)
qed

lemma strip_idem: "strip (strip s) = strip s"
proof (cases "strip s = []")
  case True
  have "strip [] = []" by (simp add: strip_def)
  with True show ?thesis by simp
next
  case False
  with strip_ends [OF False] show ?thesis by (intro strip_self) simp_all
qed



text \<open>Texts without the record-start marker.\<close>

lemma ldr_free_Nil [simp]: "ldr_free []"
  by (simp add: ldr_free_def)


















end
